theory Spec2Isabelle
  imports Main "HOL-Library.Product_Lexorder"
begin

section \<open>Data model\<close>

text \<open>
  The solver of \<^verbatim>\<open>Sudoku.py\<close> works on a 9x9 numpy array of integers (0 is an empty
  cell), on positions \<^verbatim>\<open>(row, col)\<close> and on a dict from positions to lists of candidate
  values. The array is modelled as a function from positions to integers whose shape is
  fixed at 9x9: every read the source makes is guarded below by the range check that numpy
  performs, and cells outside the 9x9 square are never read or written. Positions have
  natural-number coordinates (numpy's wrap-around of negative indices is outside the
  model). The dict is a map; Python's \<^verbatim>\<open>KeyError\<close> and numpy's \<^verbatim>\<open>IndexError\<close> are values.
\<close>

type_synonym pos = "nat \<times> nat"
type_synonym board = "pos \<Rightarrow> int"
type_synonym domains = "pos \<rightharpoonup> int list"

datatype error = IndexError | KeyError

text \<open>\<^verbatim>\<open>board.shape[0]\<close> and \<^verbatim>\<open>board.shape[1]\<close>.\<close>

definition shape0 :: nat where
  "shape0 = 9"

definition shape1 :: nat where
  "shape1 = 9"

text \<open>All indices of the array in row-major order, the order of \<^verbatim>\<open>np.argwhere\<close>.\<close>

definition all_positions :: "pos list" where
  "all_positions = List.product [0..<shape0] [0..<shape1]"

text \<open>\<^verbatim>\<open>0 in board\<close> and \<^verbatim>\<open>np.argwhere(board == 0)\<close>.\<close>

definition contains_zero :: "board \<Rightarrow> bool" where
  "contains_zero board = list_ex (\<lambda>p. board p = 0) all_positions"

definition argwhere_zero :: "board \<Rightarrow> pos list" where
  "argwhere_zero board = filter (\<lambda>p. board p = 0) all_positions"

section \<open>The conflict check\<close>

text \<open>
  \<^verbatim>\<open>is_valid_value\<close>: three list comprehensions extend \<^verbatim>\<open>conflicts\<close>; each one is
  evaluated against the list as it was before the extension. A row or column index
  outside the array raises \<^verbatim>\<open>IndexError\<close> in the first or second comprehension.
\<close>

definition is_valid_value :: "board \<Rightarrow> pos \<Rightarrow> int \<Rightarrow> error + (bool \<times> pos list)" where
  "is_valid_value board position value =
     (case position of (row, col) \<Rightarrow>
        if \<not> (row < shape0 \<and> col < shape1) then Inl IndexError
        else
          let conflicts0 = [];
              conflicts1 = conflicts0 @
                filter (\<lambda>p. board p = value \<and> p \<notin> set conflicts0)
                  (map (\<lambda>c. (row, c)) [0..<shape0]);
              conflicts2 = conflicts1 @
                filter (\<lambda>p. board p = value \<and> p \<notin> set conflicts1)
                  (map (\<lambda>r. (r, col)) [0..<shape1]);
              start_row = row - row mod 3;
              start_col = col - col mod 3;
              conflicts3 = conflicts2 @
                filter (\<lambda>p. board p = value \<and> p \<notin> set conflicts2)
                  (List.product [start_row..<start_row + 3] [start_col..<start_col + 3])
          in Inr (length conflicts3 = 0, conflicts3))"

section \<open>Value ordering\<close>

text \<open>
  \<^verbatim>\<open>sorted_values\<close>: the dict \<^verbatim>\<open>affected\<close> starts at 0 for every candidate and is
  incremented in two nested loops; \<^verbatim>\<open>domains[u]\<close> raises \<^verbatim>\<open>KeyError\<close> for a missing
  key. The keys of a dict come in the order of first insertion; Python's \<^verbatim>\<open>sorted\<close> is
  stable, as \<^const>\<open>sort_key\<close> is.
\<close>

fun affected_inner :: "domains \<Rightarrow> int \<Rightarrow> pos list \<Rightarrow> (int \<Rightarrow> nat) \<Rightarrow> error + (int \<Rightarrow> nat)" where
  "affected_inner domains value [] affected = Inr affected"
| "affected_inner domains value (u # us) affected =
     (case domains u of
        None \<Rightarrow> Inl KeyError
      | Some d \<Rightarrow>
          affected_inner domains value us
            (if value \<in> set d then affected(value := affected value + 1) else affected))"

fun affected_outer :: "domains \<Rightarrow> int list \<Rightarrow> pos list \<Rightarrow> (int \<Rightarrow> nat) \<Rightarrow> error + (int \<Rightarrow> nat)" where
  "affected_outer domains [] unassigned affected = Inr affected"
| "affected_outer domains (value # values) unassigned affected =
     (case affected_inner domains value unassigned affected of
        Inl e \<Rightarrow> Inl e
      | Inr affected' \<Rightarrow> affected_outer domains values unassigned affected')"

definition dict_keys :: "int list \<Rightarrow> int list" where
  "dict_keys values = rev (remdups (rev values))"

definition sorted_values :: "domains \<Rightarrow> pos list \<Rightarrow> pos \<Rightarrow> error + int list" where
  "sorted_values domains unassigned position =
     (case domains position of
        None \<Rightarrow> Inl KeyError
      | Some values \<Rightarrow>
          (case affected_outer domains values unassigned (\<lambda>_. 0) of
             Inl e \<Rightarrow> Inl e
           | Inr affected \<Rightarrow> Inr (sort_key (\<lambda>v. affected v) (dict_keys values))))"

section \<open>Domain table and forward checking\<close>

definition get_domains :: "board \<Rightarrow> domains" where
  "get_domains board =
     foldl (\<lambda>domains pos. domains(pos \<mapsto> [1..9])) Map.empty (argwhere_zero board)"

definition remove_value :: "domains \<Rightarrow> int \<Rightarrow> pos list \<Rightarrow> domains" where
  "remove_value domains value region =
     foldl (\<lambda>domains r.
              case domains r of
                None \<Rightarrow> domains
              | Some d \<Rightarrow> domains(r \<mapsto> filter (\<lambda>v. v \<noteq> value) d))
       domains region"

definition get_horizontal :: "pos \<Rightarrow> pos list \<Rightarrow> pos list" where
  "get_horizontal position unassigned = filter (\<lambda>u. fst u = fst position) unassigned"

definition get_vertical :: "pos \<Rightarrow> pos list \<Rightarrow> pos list" where
  "get_vertical position unassigned = filter (\<lambda>u. snd u = snd position) unassigned"

definition get_box :: "pos \<Rightarrow> pos list \<Rightarrow> pos list" where
  "get_box position unassigned =
     (let start_row = fst position - fst position mod 3;
          start_column = snd position - snd position mod 3
      in filter (\<lambda>u. (start_row \<le> fst u \<and> fst u < start_row + 3) \<and>
                      (start_column \<le> snd u \<and> snd u < start_column + 3)) unassigned)"

text \<open>\<^verbatim>\<open>np.unique(..., axis=0)\<close>: the distinct rows in lexicographic order.\<close>

definition np_unique :: "pos list \<Rightarrow> pos list" where
  "np_unique ps = sort (remdups ps)"

text \<open>
  \<^verbatim>\<open>forward_checking\<close> works on a deep copy of its argument; in the model a map is a
  value, so the copy is the map itself.
\<close>

definition forward_checking :: "domains \<Rightarrow> pos list \<Rightarrow> pos \<Rightarrow> int \<Rightarrow> domains" where
  "forward_checking domains unassigned position value =
     remove_value domains value
       (np_unique (get_horizontal position unassigned @
                   get_vertical position unassigned @
                   get_box position unassigned))"

section \<open>The search\<close>

text \<open>
  The array is mutated in place, so it is threaded through the search as state. Next to
  the board the state carries a log \<open>seen\<close> kept by an observer: the search reports
  the board to the observer at entry to every invocation and after every write, and never
  reads the log. With the observer \<open>Cons\<close> the log is the list of all boards the search
  passes through, most recent first; with \<open>no_log\<close> nothing is kept.
\<close>

record 'l state =
  board :: board
  seen :: 'l

type_synonym 'l observer = "board \<Rightarrow> 'l \<Rightarrow> 'l"

definition no_log :: "unit observer" where
  "no_log b l = ()"

definition enter :: "'l observer \<Rightarrow> 'l state \<Rightarrow> 'l state" where
  "enter observe s = s\<lparr>seen := observe (board s) (seen s)\<rparr>"

text \<open>\<^verbatim>\<open>board[position] = value\<close>.\<close>

definition assign :: "'l observer \<Rightarrow> pos \<Rightarrow> int \<Rightarrow> 'l state \<Rightarrow> 'l state" where
  "assign observe position value s =
     \<lparr>board = (board s)(position := value),
      seen = observe ((board s)(position := value)) (seen s)\<rparr>"

text \<open>
  A \<^verbatim>\<open>for\<close> loop over a list whose body may \<^verbatim>\<open>return\<close>: the body yields \<open>Some r\<close> to
  return \<open>r\<close> from the enclosing function and \<open>None\<close> to go on with the next element
  (also what \<^verbatim>\<open>continue\<close> does).
\<close>

fun for_loop :: "'a list \<Rightarrow> ('a \<Rightarrow> 's \<Rightarrow> 'e + ('r option \<times> 's)) \<Rightarrow> 's \<Rightarrow> 'e + ('r option \<times> 's)" where
  "for_loop [] body s = Inr (None, s)"
| "for_loop (x # xs) body s =
     (case body x s of
        Inl e \<Rightarrow> Inl e
      | Inr (Some r, s') \<Rightarrow> Inr (Some r, s')
      | Inr (None, s') \<Rightarrow> for_loop xs body s')"

lemma for_loop_cong [fundef_cong]:
  assumes "xs = ys" and "s = t"
    and "\<And>x u. x \<in> set ys \<Longrightarrow> body x u = body' x u"
  shows "for_loop xs body s = for_loop ys body' t"
  unfolding assms(1,2) using assms(3)
  by (induction ys arbitrary: t) (auto split: sum.splits option.splits prod.splits)

text \<open>\<^verbatim>\<open>sorted(..., key=lambda pos: len(domains[pos]))\<close>.\<close>

definition sorted_by_domain :: "domains \<Rightarrow> pos list \<Rightarrow> error + pos list" where
  "sorted_by_domain domains unassigned =
     (if list_ex (\<lambda>pos. domains pos = None) unassigned then Inl KeyError
      else Inr (sort_key (\<lambda>pos. length (the (domains pos))) unassigned))"

text \<open>\<^verbatim>\<open>any(len(new_domains[tuple(d)]) == 0 for d in unassigned)\<close>, which stops at the
  first empty domain.\<close>

fun any_empty :: "domains \<Rightarrow> pos list \<Rightarrow> error + bool" where
  "any_empty new_domains [] = Inr False"
| "any_empty new_domains (d # ds) =
     (case new_domains d of
        None \<Rightarrow> Inl KeyError
      | Some l \<Rightarrow> if length l = 0 then Inr True else any_empty new_domains ds)"

section \<open>Rows, columns and blocks\<close>

text \<open>
  Two positions are related when they share a row, a column or a 3x3 block; a position is
  related to itself.
\<close>

definition same_block :: "pos \<Rightarrow> pos \<Rightarrow> bool" where
  "same_block p q = (fst p div 3 = fst q div 3 \<and> snd p div 3 = snd q div 3)"

definition related :: "pos \<Rightarrow> pos \<Rightarrow> bool" where
  "related p q = (fst q = fst p \<or> snd q = snd p \<or> same_block p q)"

text \<open>The size of a domain table: the termination measure of the search.\<close>

definition domains_size :: "domains \<Rightarrow> nat" where
  "domains_size domains =
     sum_list (map (\<lambda>p. case domains p of None \<Rightarrow> 0 | Some d \<Rightarrow> length d) all_positions)"

section \<open>Facts about the helpers\<close>

lemma block_range: "(a - a mod 3 \<le> b \<and> b < a - a mod 3 + 3) = (a div 3 = b div (3::nat))"
proof -
  have a: "a - a mod 3 = 3 * (a div 3)" by (simp add: minus_mod_eq_mult_div)
  have "(3 * k \<le> b \<and> b < 3 * k + 3) = (k = b div 3)" for k :: nat
    by linarith
  then show ?thesis unfolding a by simp
qed

lemma remove_value_apply:
  "remove_value d v region q =
     (if q \<in> set region then map_option (filter (\<lambda>x. x \<noteq> v)) (d q) else d q)"
  unfolding remove_value_def
proof (induction region arbitrary: d)
  case Nil
  show ?case by simp
next
  case (Cons r rs)
  show ?case by (simp add: Cons.IH split: option.splits)
qed

lemma set_region:
  "set (np_unique (get_horizontal p U @ get_vertical p U @ get_box p U)) =
     {q \<in> set U. related p q}"
proof -
  have box: "set (get_box p U) = {q \<in> set U. same_block p q}"
    unfolding get_box_def Let_def same_block_def set_filter block_range ..
  have u: "set (np_unique xs) = set xs" for xs
    by (simp add: np_unique_def)
  have "{q \<in> set U. fst q = fst p} \<union> ({q \<in> set U. snd q = snd p} \<union> {q \<in> set U. same_block p q})
      = {q \<in> set U. fst q = fst p \<or> snd q = snd p \<or> same_block p q}"
    by blast
  then show ?thesis
    by (simp only: u set_append box get_horizontal_def get_vertical_def set_filter related_def)
qed

lemma forward_checking_apply:
  "forward_checking d U p v q =
     (if q \<in> set U \<and> related p q then map_option (filter (\<lambda>x. x \<noteq> v)) (d q) else d q)"
  by (simp add: forward_checking_def remove_value_apply set_region)

lemma distinct_all_positions: "distinct all_positions"
  by (simp add: all_positions_def distinct_product)

lemma set_all_positions: "set all_positions = {p. fst p < shape0 \<and> snd p < shape1}"
  by (auto simp: all_positions_def)

lemma set_argwhere_zero: "set (argwhere_zero b) = {p \<in> set all_positions. b p = 0}"
  by (auto simp: argwhere_zero_def)

lemma sorted_by_domain_Inr:
  "sorted_by_domain d U = Inr us \<Longrightarrow> set us = set U \<and> (\<forall>u\<in>set U. d u \<noteq> None)"
  by (auto simp: sorted_by_domain_def list_ex_iff split: if_splits)

lemma sorted_values_Inr:
  "sorted_values d U p = Inr vs \<Longrightarrow> \<exists>l. d p = Some l \<and> set vs = set l"
  by (auto simp: sorted_values_def dict_keys_def split: option.splits sum.splits)

lemma filter_length_less: "v \<in> set l \<Longrightarrow> length (filter (\<lambda>x. x \<noteq> v) l) < length l"
  by (induction l) (auto simp: less_Suc_eq_le)

lemma domains_size_forward_checking:
  assumes "p \<in> set U" and "p \<in> set all_positions" and "d p = Some l" and "v \<in> set l"
  shows "domains_size (forward_checking d U p v) < domains_size d"
proof -
  let ?f = "\<lambda>d q. case d q of None \<Rightarrow> 0 | Some l \<Rightarrow> length l"
  have le: "?f (forward_checking d U p v) q \<le> ?f d q" for q
    by (auto simp: forward_checking_apply split: option.splits)
  have "related p p" by (simp add: related_def)
  then have lt: "?f (forward_checking d U p v) p < ?f d p"
    using assms by (simp add: forward_checking_apply filter_length_less)
  have "sum (?f (forward_checking d U p v)) (set all_positions) < sum (?f d) (set all_positions)"
    by (rule sum_strict_mono_ex1) (use le lt assms(2) in auto)
  then show ?thesis
    by (simp add: domains_size_def sum_list_distinct_conv_sum_set distinct_all_positions)
qed

section \<open>The recursive search\<close>

function solve ::
  "'l observer \<Rightarrow> 'l state \<Rightarrow> domains option \<Rightarrow> error + ((board option \<times> bool) \<times> 'l state)" where
  "solve observe s0 domains_arg =
     (let s = enter observe s0 in
      if \<not> contains_zero (board s) then Inr ((Some (board s), True), s)
      else
        let domains = (case domains_arg of None \<Rightarrow> get_domains (board s) | Some d \<Rightarrow> d);
            unassigned = argwhere_zero (board s)
        in (case sorted_by_domain domains unassigned of
             Inl e \<Rightarrow> Inl e
           | Inr unassigned_sorted \<Rightarrow>
               (case for_loop unassigned_sorted
                  (\<lambda>position s.
                     case sorted_values domains unassigned position of
                       Inl e \<Rightarrow> Inl e
                     | Inr values \<Rightarrow>
                         (case for_loop values
                            (\<lambda>value s.
                               case is_valid_value (board s) position value of
                                 Inl e \<Rightarrow> Inl e
                               | Inr (valid, _) \<Rightarrow>
                                   if \<not> valid then Inr (None, s)
                                   else
                                     let s = assign observe position value s;
                                         new_domains =
                                           forward_checking domains unassigned position value
                                     in (case any_empty new_domains unassigned of
                                          Inl e \<Rightarrow> Inl e
                                        | Inr True \<Rightarrow> Inr (None, s)
                                        | Inr False \<Rightarrow>
                                            (case solve observe s (Some new_domains) of
                                               Inl e \<Rightarrow> Inl e
                                             | Inr ((solved_board, solved), s) \<Rightarrow>
                                                 if solved then Inr (Some (solved_board, True), s)
                                                 else Inr (None, assign observe position 0 s))))
                            s of
                            Inl e \<Rightarrow> Inl e
                          | Inr (Some r, s) \<Rightarrow> Inr (Some r, s)
                          | Inr (None, s) \<Rightarrow> Inr (Some (None, False), s)))
                  s of
                  Inl e \<Rightarrow> Inl e
                | Inr (Some r, s) \<Rightarrow> Inr (r, s)
                | Inr (None, s) \<Rightarrow> Inr ((None, False), s))))"
  by pat_completeness auto

termination solve
proof (relation "measure (\<lambda>(observe, s, d).
    domains_size (case d of None \<Rightarrow> get_domains (board (enter observe s)) | Some d \<Rightarrow> d))", goal_cases)
  case 1
  show ?case by simp
next
  case (2 observe s0 domains_arg s domains unassigned unassigned_sorted position u vs v s' vc valid conflicts s'' new_domains solved)
  note h = 2
  have pos: "position \<in> set unassigned"
    using sorted_by_domain_Inr[OF 2(5)] 2(6) by simp
  have "position \<in> set all_positions"
    using pos 2(4) by (simp add: set_argwhere_zero)
  moreover obtain l where "domains position = Some l" "v \<in> set l"
    using sorted_values_Inr[OF 2(7)] 2(8) by auto
  ultimately have "domains_size (forward_checking domains unassigned position v) < domains_size domains"
    using pos by (intro domains_size_forward_checking)
  then show ?case unfolding h(13) h(4) h(3) h(1) by simp
qed

declare solve.simps [simp del]

section \<open>Concrete boards\<close>

text \<open>\<^verbatim>\<open>np.array(rows)\<close> for a list of nine rows of nine cells.\<close>

definition board_of :: "int list list \<Rightarrow> board" where
  "board_of rows = (\<lambda>(r, c). rows ! r ! c)"

text \<open>The solved grid \<^verbatim>\<open>pre_solved\<close> at the end of \<^verbatim>\<open>Sudoku.py\<close>.\<close>

definition pre_solved :: "int list list" where
  "pre_solved =
     [[5, 3, 4, 6, 7, 8, 9, 1, 2],
      [6, 7, 2, 1, 9, 5, 3, 4, 8],
      [1, 9, 8, 3, 4, 2, 5, 6, 7],
      [8, 5, 9, 7, 6, 1, 4, 2, 3],
      [4, 2, 6, 8, 5, 3, 7, 9, 1],
      [7, 1, 3, 9, 2, 4, 8, 5, 6],
      [9, 6, 1, 5, 3, 7, 2, 8, 4],
      [2, 8, 7, 4, 1, 9, 6, 3, 5],
      [3, 4, 5, 2, 8, 6, 1, 7, 9]]"

section \<open>The conflict check: every conflicting position is reported\<close>

lemma in_all_positions: "(r, c) \<in> set all_positions \<longleftrightarrow> r < shape0 \<and> c < shape1"
  by (simp add: all_positions_def)

lemma div3_bound: "a div 3 = b div (3::nat) \<Longrightarrow> a < 9 \<Longrightarrow> b < 9"
proof -
  assume e: "a div 3 = b div 3" and a: "a < 9"
  from a have "a div 3 < 3" by (simp add: div_less_iff_less_mult)
  then have "b div 3 < 3" using e by simp
  then show "b < 9" by (simp add: div_less_iff_less_mult)
qed

lemma block_cells:
  "set (List.product [row - row mod 3..<row - row mod 3 + 3] [col - col mod 3..<col - col mod 3 + 3])
     = {q. same_block (row, col) q}"
proof -
  have "(a - a mod 3 \<le> b \<and> b < a - a mod 3 + 3) = (a div 3 = b div 3)" for a b :: nat
    by (rule block_range)
  then show ?thesis
    by (auto simp: same_block_def)
qed

lemma distinct_extend:
  "distinct xs \<Longrightarrow> distinct ys \<Longrightarrow> distinct (xs @ filter (\<lambda>p. P p \<and> p \<notin> set xs) ys)"
  by auto

lemma in_extend:
  "q \<in> set ys \<Longrightarrow> P q \<Longrightarrow> q \<in> set (xs @ filter (\<lambda>p. P p \<and> p \<notin> set xs) ys)"
  by auto

lemma is_valid_value_spec:
  assumes "row < shape0" and "col < shape1"
  shows "\<exists>conflicts. is_valid_value b (row, col) value = Inr (conflicts = [], conflicts)
           \<and> distinct conflicts
           \<and> set conflicts = {q \<in> set all_positions. related (row, col) q \<and> b q = value}"
proof -
  let ?rowc = "filter (\<lambda>p. b p = value) (map (\<lambda>c. (row, c)) [0..<shape0])"
  let ?colc = "filter (\<lambda>p. b p = value \<and> p \<notin> set ?rowc) (map (\<lambda>r. (r, col)) [0..<shape1])"
  let ?blk = "List.product [row - row mod 3..<row - row mod 3 + 3] [col - col mod 3..<col - col mod 3 + 3]"
  let ?blkc = "filter (\<lambda>p. b p = value \<and> p \<notin> set (?rowc @ ?colc)) ?blk"
  let ?conflicts = "?rowc @ ?colc @ ?blkc"
  let ?c1 = "[] @ filter (\<lambda>p. b p = value \<and> p \<notin> set []) (map (\<lambda>c. (row, c)) [0..<shape0])"
  let ?c2 = "?c1 @ filter (\<lambda>p. b p = value \<and> p \<notin> set ?c1) (map (\<lambda>r. (r, col)) [0..<shape1])"
  let ?c3 = "?c2 @ filter (\<lambda>p. b p = value \<and> p \<notin> set ?c2) ?blk"
  have "is_valid_value b (row, col) value = Inr (length ?c3 = 0, ?c3)"
    by (simp only: is_valid_value_def Let_def prod.case assms simp_thms if_False)
  moreover have c1: "?c1 = ?rowc" by simp
  moreover have c2: "?c2 = ?rowc @ ?colc" unfolding c1 ..
  moreover have c3: "?c3 = ?conflicts" unfolding c2 by simp
  ultimately have eq: "is_valid_value b (row, col) value = Inr (?conflicts = [], ?conflicts)"
    by (simp only: length_0_conv)
  have d1: "distinct ?rowc" by (simp add: distinct_map inj_on_def)
  have d2: "distinct ?colc" by (simp add: distinct_map inj_on_def)
  have d3: "distinct ?blk" by (simp add: distinct_product)
  have d2': "distinct (map (\<lambda>r. (r, col)) [0..<shape1])" by (simp add: distinct_map inj_on_def)
  have "distinct (?rowc @ ?colc)" by (rule distinct_extend[OF d1 d2'])
  then have "distinct ((?rowc @ ?colc) @ ?blkc)" using d3 by (rule distinct_extend)
  then have dist: "distinct ?conflicts" by (simp only: append_assoc)
  have blk: "set ?blk = {q. same_block (row, col) q}" by (rule block_cells)
  have "set ?conflicts = {q \<in> set all_positions. related (row, col) q \<and> b q = value}"
  proof (intro set_eqI iffI)
    fix q assume "q \<in> set ?conflicts"
    then consider "q \<in> set ?rowc" | "q \<in> set ?colc" | "q \<in> set ?blkc" by auto
    then show "q \<in> {q \<in> set all_positions. related (row, col) q \<and> b q = value}"
    proof cases
      case 1 then show ?thesis using assms
        by (auto simp: related_def in_all_positions shape0_def shape1_def)
    next
      case 2 then show ?thesis using assms
        by (auto simp: related_def in_all_positions shape0_def shape1_def)
    next
      case 3
      then have sb: "same_block (row, col) q" and v: "b q = value" using blk by auto
      obtain r c where q: "q = (r, c)" by (cases q)
      have "r < 9" "c < 9"
        using sb assms div3_bound[of row r] div3_bound[of col c]
        by (auto simp: q same_block_def shape0_def shape1_def)
      then show ?thesis using sb v by (simp add: q related_def in_all_positions shape0_def shape1_def)
    qed
  next
    fix q assume a: "q \<in> {q \<in> set all_positions. related (row, col) q \<and> b q = value}"
    obtain r c where q: "q = (r, c)" by (cases q)
    from a have rng: "r < 9" "c < 9" and rel: "related (row, col) (r, c)" and v: "b (r, c) = value"
      by (auto simp: q in_all_positions shape0_def shape1_def)
    show "q \<in> set ?conflicts"
    proof (cases "r = row")
      case True
      then have "q \<in> set ?rowc" using rng v by (auto simp: q shape0_def)
      then show ?thesis by simp
    next
      case nr: False
      show ?thesis
      proof (cases "c = col")
        case True
        then have "q \<in> set ?colc" using rng v nr by (auto simp: q shape1_def)
        then show ?thesis by simp
      next
        case False
        then have "same_block (row, col) q" using rel nr by (auto simp: related_def q)
        then have "q \<in> set ?blk" using blk by simp
        then have "q \<in> set ((?rowc @ ?colc) @ ?blkc)"
          using v by (intro in_extend) (simp_all add: q)
        then show ?thesis by (simp only: append_assoc)
      qed
    qed
  qed
  with eq dist show ?thesis by blast
qed

text \<open>
  Claim C4, as the code has it. For a position inside the array, \<^verbatim>\<open>is_valid_value\<close>
  returns the list of all cells of the position's row, column and block that hold the
  value, each once, the queried cell itself included when it holds the value; the flag is
  \<open>True\<close> exactly when that list is empty.
\<close>

theorem is_valid_value_conflicts:
  assumes "row < shape0" and "col < shape1"
  shows "\<exists>conflicts. is_valid_value b (row, col) value = Inr (conflicts = [], conflicts)
           \<and> distinct conflicts
           \<and> set conflicts = {q \<in> set all_positions. related (row, col) q \<and> b q = value}"
  using assms by (rule is_valid_value_spec)

theorem is_valid_value_conflicts_witness:
  "\<exists>conflicts. is_valid_value (board_of pre_solved) (0, 0) 5 = Inr (conflicts = [], conflicts)
     \<and> distinct conflicts
     \<and> set conflicts =
         {q \<in> set all_positions. related (0, 0) q \<and> board_of pre_solved q = 5}"
  using is_valid_value_conflicts [of 0 0 "board_of pre_solved" 5]
  by (simp add: shape0_def shape1_def)

text \<open>
  Claim C4 as stated fails where the queried cell itself holds the value: in the solved
  grid, no cell other than \<open>(0, 0)\<close> in its row, column or block holds 5, yet the check
  answers \<open>False\<close> and reports \<open>(0, 0)\<close>.
\<close>

theorem is_valid_value_self_counterexample:
  "is_valid_value (board_of pre_solved) (0, 0) 5 = Inr (False, [(0, 0)])
   \<and> \<not> (\<exists>q\<in>set all_positions.
            q \<noteq> (0, 0) \<and> related (0, 0) q \<and> board_of pre_solved q = 5)"
  by code_simp

section \<open>Forward checking\<close>

text \<open>
  Claim C6. In the table returned by \<^verbatim>\<open>forward_checking\<close>, no unassigned cell that shares
  the row, the column or the block of the position lists the assigned value.
\<close>

theorem forward_checking_sound:
  assumes "u \<in> set unassigned" and "related position u"
    and "forward_checking domains unassigned position value u = Some d"
  shows "value \<notin> set d"
  using assms by (auto simp: forward_checking_apply)

theorem forward_checking_sound_witness:
  "(0, 1) \<in> set [(0, 0), (0, 1)] \<and> related (0, 0) (0, 1)
   \<and> forward_checking [(0, 0) \<mapsto> [1, 2], (0, 1) \<mapsto> [1, 3]] [(0, 0), (0, 1)] (0, 0) 1 (0, 1)
       = Some [3]
   \<and> (1::int) \<notin> set [3]"
  using forward_checking_sound
    [of "(0, 1)" "[(0, 0), (0, 1)]" "(0, 0)" "[(0, 0) \<mapsto> [1, 2], (0, 1) \<mapsto> [1, 3]]" 1 "[3]"]
  by (simp add: forward_checking_apply related_def)

text \<open>
  Claim C5 at the assigned position itself. The three neighbour queries filter the
  unassigned cells by row, column and block without taking the position out, so the
  position's own entry loses the value: the entry of \<open>(0, 0)\<close>, which is not one of the
  other cells, changes from \<open>[1, 2]\<close> to \<open>[2]\<close>.
\<close>

theorem forward_checking_own_entry:
  "forward_checking [(0, 0) \<mapsto> [1, 2]] [(0, 0)] (0, 0) 1 (0, 0) = Some [2]"
  by (simp add: forward_checking_apply related_def)

text \<open>What does hold: entries of cells that are not unassigned cells of the position's
  row, column or block are the input's.\<close>

lemma forward_checking_frame:
  "\<not> (u \<in> set unassigned \<and> related position u) \<Longrightarrow>
   forward_checking domains unassigned position value u = domains u"
  by (auto simp: forward_checking_apply)

section \<open>Value ordering\<close>

text \<open>
  The number of unassigned cells other than the selected one whose domain lists a value.
\<close>

definition listing :: "domains \<Rightarrow> int \<Rightarrow> pos \<Rightarrow> bool" where
  "listing domains v u = (case domains u of None \<Rightarrow> False | Some d \<Rightarrow> v \<in> set d)"

definition others_listing :: "domains \<Rightarrow> pos list \<Rightarrow> pos \<Rightarrow> int \<Rightarrow> nat" where
  "others_listing domains unassigned position v =
     length (filter (\<lambda>u. u \<noteq> position \<and> listing domains v u) unassigned)"

lemma affected_inner_Inr:
  "\<forall>u\<in>set us. domains u \<noteq> None \<Longrightarrow>
   affected_inner domains v us aff =
     Inr (aff(v := aff v + length (filter (listing domains v) us)))"
proof (induction us arbitrary: aff)
  case Nil
  show ?case by simp
next
  case (Cons u us)
  then obtain d where d: "domains u = Some d" by auto
  have rest: "\<forall>u\<in>set us. domains u \<noteq> None" using Cons.prems by simp
  show ?case
    by (auto simp: d Cons.IH[OF rest] listing_def fun_eq_iff)
qed

lemma affected_outer_Inr:
  "\<forall>u\<in>set us. domains u \<noteq> None \<Longrightarrow>
   affected_outer domains vs us aff =
     Inr (\<lambda>x. aff x + count_list vs x * length (filter (listing domains x) us))"
proof (induction vs arbitrary: aff)
  case Nil
  show ?case by simp
next
  case (Cons v vs)
  show ?case
    by (simp add: affected_inner_Inr[OF Cons.prems] Cons.IH[OF Cons.prems] fun_eq_iff)
qed

lemma listing_split:
  "length (filter (listing domains v) us) =
     others_listing domains us position v + (if listing domains v position then count_list us position else 0)"
  unfolding others_listing_def
  by (induction us) auto

lemma count_list_distinct: "distinct xs \<Longrightarrow> x \<in> set xs \<Longrightarrow> count_list xs x = 1"
  by (induction xs) auto

lemma sorted_map_shift:
  "sorted (map f xs) \<Longrightarrow> \<forall>x\<in>set xs. f x = g x + (k::nat) \<Longrightarrow> sorted (map g xs)"
  by (induction xs) auto

text \<open>
  Claim C9. For a table that has an entry for every unassigned cell and a duplicate-free
  candidate list for the selected cell, \<^verbatim>\<open>sorted_values\<close> returns the candidates of the
  selected cell, each once, in ascending order of the number of other unassigned cells
  whose domain lists the value.
\<close>

theorem sorted_values_least_constraining:
  assumes "domains position = Some candidates" and "distinct candidates"
    and "\<forall>u\<in>set unassigned. domains u \<noteq> None"
  shows "\<exists>vs. sorted_values domains unassigned position = Inr vs
           \<and> set vs = set candidates \<and> distinct vs
           \<and> sorted (map (others_listing domains unassigned position) vs)"
proof -
  let ?aff = "\<lambda>x. 0 + count_list candidates x * length (filter (listing domains x) unassigned)"
  let ?vs = "sort_key ?aff candidates"
  have keys: "dict_keys candidates = candidates"
    using assms(2) by (simp add: dict_keys_def distinct_remdups_id)
  have eq: "sorted_values domains unassigned position = Inr ?vs"
    by (simp add: sorted_values_def assms(1) affected_outer_Inr[OF assms(3)] keys)
  have "\<forall>x\<in>set ?vs. ?aff x = others_listing domains unassigned position x + count_list unassigned position"
  proof
    fix x assume "x \<in> set ?vs"
    then have x: "x \<in> set candidates" by simp
    then have "count_list candidates x = 1" using assms(2) by (simp add: count_list_distinct)
    moreover have "listing domains x position" using x by (simp add: listing_def assms(1))
    ultimately show "?aff x = others_listing domains unassigned position x + count_list unassigned position"
      using listing_split[of domains x unassigned position] by simp
  qed
  moreover have "sorted (map ?aff ?vs)" by (rule sorted_sort_key)
  ultimately have "sorted (map (others_listing domains unassigned position) ?vs)"
    by (rule sorted_map_shift[rotated])
  then show ?thesis using eq assms(2) by simp
qed

theorem sorted_values_least_constraining_witness:
  "\<exists>vs. sorted_values [(0, 0) \<mapsto> [1, 2], (0, 1) \<mapsto> [1, 3], (5, 5) \<mapsto> [1]]
           [(0, 0), (0, 1), (5, 5)] (0, 0) = Inr vs
     \<and> set vs = set [1, 2] \<and> distinct vs
     \<and> sorted (map (others_listing [(0, 0) \<mapsto> [1, 2], (0, 1) \<mapsto> [1, 3], (5, 5) \<mapsto> [1]]
                      [(0, 0), (0, 1), (5, 5)] (0, 0)) vs)"
  using sorted_values_least_constraining
    [of "[(0, 0) \<mapsto> [1, 2], (0, 1) \<mapsto> [1, 3], (5, 5) \<mapsto> [1]]" "(0, 0)" "[1, 2]"
        "[(0, 0), (0, 1), (5, 5)]"]
  by simp

section \<open>What the search maintains\<close>

text \<open>
  A board is conflict-free when no two related cells of the array hold the same non-zero
  value; it is well-formed when every cell holds a digit from 0 to 9. A table is keyed
  for a board when it has an entry for every empty cell.
\<close>

definition conflict_free :: "board \<Rightarrow> bool" where
  "conflict_free b =
     (\<forall>p\<in>set all_positions. \<forall>q\<in>set all_positions.
        p \<noteq> q \<and> related p q \<and> b p \<noteq> 0 \<longrightarrow> b p \<noteq> b q)"

definition well_formed :: "board \<Rightarrow> bool" where
  "well_formed b = (\<forall>p\<in>set all_positions. 0 \<le> b p \<and> b p \<le> 9)"

definition keyed :: "domains \<Rightarrow> board \<Rightarrow> bool" where
  "keyed domains b = (\<forall>p\<in>set all_positions. b p = 0 \<longrightarrow> domains p \<noteq> None)"

definition candidates_in :: "domains \<Rightarrow> int set \<Rightarrow> bool" where
  "candidates_in domains V = (\<forall>p d. domains p = Some d \<longrightarrow> set d \<subseteq> V)"

definition unchanged_clues :: "board \<Rightarrow> board \<Rightarrow> bool" where
  "unchanged_clues b b' = (\<forall>p. b p \<noteq> 0 \<longrightarrow> b' p = b p)"

text \<open>
  The invariant of the search is proved once, for any property \<open>G\<close> of boards that
  survives the two writes the search makes (a candidate from \<open>V\<close> that
  \<^verbatim>\<open>is_valid_value\<close> accepted, and clearing a cell) and any property \<open>I\<close> of the log that
  survives the report of a board with \<open>G\<close>. \<open>post\<close> is what holds when an invocation
  started on board \<open>b\<close> returns \<open>r\<close> in state \<open>s'\<close>.
\<close>

definition admissible :: "(board \<Rightarrow> bool) \<Rightarrow> int set \<Rightarrow> bool" where
  "admissible G V =
     ((\<forall>b p v. G b \<and> p \<in> set all_positions \<and> v \<in> V \<and>
          (\<forall>q\<in>set all_positions. related p q \<longrightarrow> b q \<noteq> v) \<longrightarrow> G (b(p := v))) \<and>
      (\<forall>b p. G b \<longrightarrow> G (b(p := 0))))"

definition observed :: "(board \<Rightarrow> bool) \<Rightarrow> ('l \<Rightarrow> bool) \<Rightarrow> 'l observer \<Rightarrow> bool" where
  "observed G I observe = (\<forall>b l. G b \<and> I l \<longrightarrow> I (observe b l))"

definition post ::
  "(board \<Rightarrow> bool) \<Rightarrow> ('l \<Rightarrow> bool) \<Rightarrow> board \<Rightarrow> (board option \<times> bool) \<Rightarrow> 'l state \<Rightarrow> bool" where
  "post G I b r s' =
     (G (board s') \<and> I (seen s') \<and> unchanged_clues b (board s') \<and>
      (if snd r then fst r = Some (board s') \<and> \<not> contains_zero (board s') else fst r = None))"

text \<open>
  The 27 units of the grid (rows, columns, blocks), what a solved board is (every unit
  holds each digit from 1 to 9 exactly once) and what a completion of a board is.
\<close>

definition unit_cells :: "pos list list" where
  "unit_cells =
     map (\<lambda>r. map (\<lambda>c. (r, c)) [0..<9]) [0..<9] @
     map (\<lambda>c. map (\<lambda>r. (r, c)) [0..<9]) [0..<9] @
     map (\<lambda>(i, j). List.product [3 * i..<3 * i + 3] [3 * j..<3 * j + 3])
       (List.product [0..<3] [0..<3])"

definition solved_grid :: "board \<Rightarrow> bool" where
  "solved_grid b = (\<forall>u\<in>set unit_cells. \<forall>d\<in>set [1..9]. count_list (map b u) d = 1)"

definition completes :: "board \<Rightarrow> board \<Rightarrow> bool" where
  "completes b c = (solved_grid c \<and> (\<forall>p\<in>set all_positions. b p \<noteq> 0 \<longrightarrow> c p = b p))"

text \<open>Results made printable: the arrays as lists of rows.\<close>

definition rows_of :: "board \<Rightarrow> int list list" where
  "rows_of b = map (\<lambda>r. map (\<lambda>c. b (r, c)) [0..<shape1]) [0..<shape0]"

definition outcome ::
  "error + ((board option \<times> bool) \<times> 'l state) \<Rightarrow> error + ((int list list option \<times> bool) \<times> int list list)" where
  "outcome res =
     (case res of
        Inl e \<Rightarrow> Inl e
      | Inr ((b, f), s) \<Rightarrow> Inr ((map_option rows_of b, f), rows_of (board s)))"

definition all_ones :: board where
  "all_ones = (\<lambda>_. 1)"

definition cleared_row :: "int list list" where
  "cleared_row = pre_solved[0 := [0, 0, 0, 0, 0, 0, 0, 0, 0]]"

definition one_cleared :: "int list list" where
  "one_cleared = pre_solved[0 := [0, 3, 4, 6, 7, 8, 9, 1, 2]]"

definition dead_end :: "int list list" where
  "dead_end =
     [[1, 2, 3, 4, 5, 6, 7, 8, 0],
      [0, 0, 0, 0, 0, 0, 0, 0, 9],
      [0, 0, 0, 0, 0, 0, 0, 0, 0],
      [0, 0, 0, 0, 0, 0, 0, 0, 0],
      [0, 0, 0, 0, 0, 0, 0, 0, 0],
      [0, 0, 0, 0, 0, 0, 0, 0, 0],
      [0, 0, 0, 0, 0, 0, 0, 0, 0],
      [0, 0, 0, 0, 0, 0, 0, 0, 0],
      [0, 0, 0, 0, 0, 0, 0, 0, 0]]"

section \<open>The invariant of the search\<close>

lemma related_sym: "related p q \<Longrightarrow> related q p"
  by (auto simp: related_def same_block_def)

lemma conflict_free_assign:
  assumes "conflict_free b" and "p \<in> set all_positions"
    and "\<forall>q\<in>set all_positions. related p q \<longrightarrow> b q \<noteq> v"
  shows "conflict_free (b(p := v))"
  unfolding conflict_free_def
proof (intro ballI impI)
  fix x y
  assume x: "x \<in> set all_positions" and y: "y \<in> set all_positions"
    and h: "x \<noteq> y \<and> related x y \<and> (b(p := v)) x \<noteq> 0"
  show "(b(p := v)) x \<noteq> (b(p := v)) y"
  proof (cases "x = p")
    case True
    then have "y \<noteq> p" "related p y" using h by auto
    then show ?thesis using True assms(3) y by auto
  next
    case False
    show ?thesis
    proof (cases "y = p")
      case True
      then have "related p x" using h related_sym by blast
      then show ?thesis using True False assms(3) x by auto
    next
      case ny: False
      then show ?thesis using False h x y assms(1) by (auto simp: conflict_free_def)
    qed
  qed
qed

lemma conflict_free_clear: "conflict_free b \<Longrightarrow> conflict_free (b(p := 0))"
  unfolding conflict_free_def by (auto simp: fun_upd_def)

lemma for_loop_rule:
  assumes "Inv s"
    and "\<And>x t. x \<in> set xs \<Longrightarrow> Inv t \<Longrightarrow>
           (case body x t of Inl e \<Rightarrow> False | Inr (Some r, t') \<Rightarrow> R r t' | Inr (None, t') \<Rightarrow> Inv t')"
  shows "case for_loop xs body s of Inl e \<Rightarrow> False | Inr (Some r, t') \<Rightarrow> R r t' | Inr (None, t') \<Rightarrow> Inv t'"
  using assms
proof (induction xs arbitrary: s)
  case Nil
  then show ?case by simp
next
  case (Cons x xs)
  have step: "case body x s of Inl e \<Rightarrow> False | Inr (Some r, t') \<Rightarrow> R r t' | Inr (None, t') \<Rightarrow> Inv t'"
    using Cons.prems by simp
  show ?case
  proof (cases "body x s")
    case (Inl e)
    then show ?thesis using step by simp
  next
    case (Inr rs)
    obtain ro t' where rs: "rs = (ro, t')" by (cases rs)
    show ?thesis
    proof (cases ro)
      case None
      then have "Inv t'" using step Inr rs by simp
      then have "case for_loop xs body t' of Inl e \<Rightarrow> False | Inr (Some r, t') \<Rightarrow> R r t' | Inr (None, t') \<Rightarrow> Inv t'"
        using Cons.prems(2) by (intro Cons.IH) auto
      then show ?thesis using Inr rs None by simp
    next
      case (Some r)
      then show ?thesis using step Inr rs by simp
    qed
  qed
qed

lemma any_empty_Inr:
  "\<forall>u\<in>set us. nd u \<noteq> None \<Longrightarrow> \<exists>e. any_empty nd us = Inr e"
  by (induction us) auto

lemma forward_checking_key: "d q \<noteq> None \<Longrightarrow> forward_checking d U p v q \<noteq> None"
  by (cases "d q") (auto simp: forward_checking_apply)

lemma candidates_in_forward_checking:
  "candidates_in d V \<Longrightarrow> candidates_in (forward_checking d U p v) V"
  unfolding candidates_in_def by (fastforce simp: forward_checking_apply split: if_splits)

lemma get_domains_apply:
  "get_domains b p = (if p \<in> set (argwhere_zero b) then Some [1..9] else None)"
proof -
  have "foldl (\<lambda>d pos. d(pos \<mapsto> [1..9])) m ps p = (if p \<in> set ps then Some [1..9] else m p)" for m ps
    by (induction ps arbitrary: m) auto
  then show ?thesis by (simp add: get_domains_def)
qed

lemma keyed_get_domains: "keyed (get_domains b) b"
  by (simp add: keyed_def get_domains_apply set_argwhere_zero)

lemma candidates_in_get_domains: "candidates_in (get_domains b) {1..9}"
  by (auto simp: candidates_in_def get_domains_apply split: if_splits)

lemma affected_inner_total:
  "\<forall>u\<in>set us. domains u \<noteq> None \<Longrightarrow> \<exists>a. affected_inner domains v us aff = Inr a"
proof (induction us arbitrary: aff)
  case Nil
  show ?case by simp
next
  case (Cons u us)
  then show ?case by (cases "domains u") auto
qed

lemma affected_outer_total:
  assumes "\<forall>u\<in>set us. domains u \<noteq> None"
  shows "\<exists>a. affected_outer domains vs us aff = Inr a"
proof (induction vs arbitrary: aff)
  case Nil
  show ?case by simp
next
  case (Cons v vs)
  obtain a where "affected_inner domains v us aff = Inr a"
    using affected_inner_total[OF assms] by blast
  then show ?case using Cons.IH by simp
qed

lemma sorted_values_total:
  assumes "domains p = Some l" and "\<forall>u\<in>set us. domains u \<noteq> None"
  shows "\<exists>vs. sorted_values domains us p = Inr vs \<and> set vs = set l"
proof -
  obtain a where "affected_outer domains l us (\<lambda>_. 0) = Inr a"
    using affected_outer_total[OF assms(2)] by blast
  then show ?thesis by (simp add: sorted_values_def assms(1) dict_keys_def)
qed

lemma is_valid_value_total:
  assumes "p \<in> set all_positions"
  shows "\<exists>valid c. is_valid_value b p v = Inr (valid, c) \<and>
           (valid \<longleftrightarrow> (\<forall>q\<in>set all_positions. related p q \<longrightarrow> b q \<noteq> v))"
proof -
  obtain row col where p: "p = (row, col)" by (cases p)
  have "row < shape0" "col < shape1" using assms by (simp_all add: p in_all_positions)
  then obtain c where c: "is_valid_value b (row, col) v = Inr (c = [], c)"
    and sc: "set c = {q \<in> set all_positions. related (row, col) q \<and> b q = v}"
    using is_valid_value_spec by blast
  have "(c = []) \<longleftrightarrow> (\<forall>q\<in>set all_positions. related p q \<longrightarrow> b q \<noteq> v)"
    using sc by (auto simp: p simp flip: set_empty)
  then show ?thesis using c p by blast
qed

lemma candidates_inD: "candidates_in d V \<Longrightarrow> d p = Some l \<Longrightarrow> v \<in> set l \<Longrightarrow> v \<in> V"
  unfolding candidates_in_def by blast

lemma admissible_write:
  "admissible G V \<Longrightarrow> G b \<Longrightarrow> p \<in> set all_positions \<Longrightarrow> v \<in> V \<Longrightarrow>
   \<forall>q\<in>set all_positions. related p q \<longrightarrow> b q \<noteq> v \<Longrightarrow> G (b(p := v))"
  unfolding admissible_def by blast

lemma admissible_clear: "admissible G V \<Longrightarrow> G b \<Longrightarrow> G (b(p := 0))"
  unfolding admissible_def by blast

lemma observedD: "observed G I observe \<Longrightarrow> G b \<Longrightarrow> I l \<Longrightarrow> I (observe b l)"
  unfolding observed_def by blast

lemma board_assign: "board (assign observe p v t) = (board t)(p := v)"
  by (simp add: assign_def)

lemma seen_assign: "seen (assign observe p v t) = observe ((board t)(p := v)) (seen t)"
  by (simp add: assign_def)

lemma unchanged_clues_assign:
  "unchanged_clues b c \<Longrightarrow> b p = 0 \<Longrightarrow> unchanged_clues b (c(p := v))"
  by (auto simp: unchanged_clues_def)

lemma unchanged_clues_zero: "unchanged_clues b c \<Longrightarrow> c p = 0 \<Longrightarrow> b p = 0"
  unfolding unchanged_clues_def by metis

lemma unchanged_clues_trans:
  "unchanged_clues b c \<Longrightarrow> unchanged_clues c d \<Longrightarrow> unchanged_clues b d"
  by (auto simp: unchanged_clues_def)

lemma solve_post:
  assumes adm: "admissible G V"
  shows "observed G I (observe :: 'l observer) \<Longrightarrow>
         keyed (case dopt of None \<Rightarrow> get_domains (board s0) | Some d \<Rightarrow> d) (board s0) \<Longrightarrow>
         candidates_in (case dopt of None \<Rightarrow> get_domains (board s0) | Some d \<Rightarrow> d) V \<Longrightarrow>
         G (board s0) \<Longrightarrow> I (seen s0) \<Longrightarrow>
         \<exists>r s'. solve observe s0 dopt = Inr (r, s') \<and> post G I (board s0) r s'"
proof (induction observe s0 dopt rule: solve.induct)
  case (1 observe s0 domains_arg)
  let ?s = "enter observe s0"
  let ?D = "case domains_arg of None \<Rightarrow> get_domains (board ?s) | Some d \<Rightarrow> d"
  let ?U = "argwhere_zero (board ?s)"
  let ?b = "board s0"
  let ?inner = "\<lambda>position value s.
     case is_valid_value (board s) position value of
       Inl e \<Rightarrow> Inl e
     | Inr (valid, _) \<Rightarrow>
         if \<not> valid then Inr (None, s)
         else (case any_empty (forward_checking ?D ?U position value) ?U of
                 Inl e \<Rightarrow> Inl e
               | Inr True \<Rightarrow> Inr (None, assign observe position value s)
               | Inr False \<Rightarrow>
                   (case solve observe (assign observe position value s)
                           (Some (forward_checking ?D ?U position value)) of
                      Inl e \<Rightarrow> Inl e
                    | Inr ((solved_board, solved), s) \<Rightarrow>
                        if solved then Inr (Some (solved_board, True), s)
                        else Inr (None, assign observe position 0 s)))"
  let ?outer = "\<lambda>position s.
     case sorted_values ?D ?U position of
       Inl e \<Rightarrow> Inl e
     | Inr values \<Rightarrow>
         (case for_loop values (?inner position) s of
            Inl e \<Rightarrow> Inl e
          | Inr (Some r, s) \<Rightarrow> Inr (Some r, s)
          | Inr (None, s) \<Rightarrow> Inr (Some (None, False), s))"
  note obs = "1.prems"(1)
  have be: "board ?s = ?b" by (simp add: enter_def)
  have keyed: "keyed ?D ?b" and cand: "candidates_in ?D V"
    using "1.prems"(2,3) unfolding be by simp_all
  have G0: "G ?b" and I0: "I (seen s0)" using "1.prems" by simp_all
  have Is: "I (seen ?s)"
    using obs G0 I0 by (simp add: observed_def enter_def)
  show ?case
  proof (cases "contains_zero ?b")
    case False
    have "solve observe s0 domains_arg = Inr ((Some (board ?s), True), ?s)"
      by (subst solve.simps) (simp add: Let_def be False)
    moreover have "post G I ?b (Some (board ?s), True) ?s"
      using G0 Is False by (simp add: post_def be unchanged_clues_def)
    ultimately show ?thesis by blast
  next
    case True
    have keys: "\<forall>u\<in>set ?U. ?D u \<noteq> None"
      using keyed by (simp add: keyed_def set_argwhere_zero be)
    have zeroU: "\<forall>u\<in>set ?U. ?b u = 0 \<and> u \<in> set all_positions"
      by (simp add: set_argwhere_zero be)
    define us where "us = sort_key (\<lambda>pos. length (the (?D pos))) ?U"
    have us: "sorted_by_domain ?D ?U = Inr us"
      using keys by (simp add: sorted_by_domain_def list_ex_iff us_def)
    have set_us: "set us = set ?U" by (simp add: us_def)
    have eq: "solve observe s0 domains_arg =
        (case for_loop us ?outer ?s of
           Inl e \<Rightarrow> Inl e
         | Inr (Some r, s) \<Rightarrow> Inr (r, s)
         | Inr (None, s) \<Rightarrow> Inr ((None, False), s))"
    proof -
      have z: "contains_zero (board ?s)" using True by (simp add: be)
      show ?thesis
        by (subst solve.simps) (simp only: Let_def z us simp_thms if_False sum.case)
    qed
    define Inv where "Inv t \<longleftrightarrow> G (board t) \<and> I (seen t) \<and> unchanged_clues ?b (board t)" for t :: "'l state"
    have Inv0: "Inv ?s" using G0 Is by (simp add: Inv_def be unchanged_clues_def)
    have inner_step:
      "case ?inner position v t of Inl e \<Rightarrow> False
       | Inr (Some r, t') \<Rightarrow> post G I ?b r t'
       | Inr (None, t') \<Rightarrow> Inv t'"
      if pos: "position \<in> set us" and sv: "sorted_values ?D ?U position = Inr vals"
        and v: "v \<in> set vals" and t: "Inv t" for position vals v t
    proof -
      have posU: "position \<in> set ?U" using pos set_us by simp
      then have pos_in: "position \<in> set all_positions" and pos0: "?b position = 0"
        using zeroU by auto
      obtain valid c where iv: "is_valid_value (board t) position v = Inr (valid, c)"
        and valid: "valid \<longleftrightarrow> (\<forall>q\<in>set all_positions. related position q \<longrightarrow> board t q \<noteq> v)"
        using is_valid_value_total[OF pos_in] by blast
      show ?thesis
      proof (cases valid)
        case False
        then show ?thesis using t by (simp add: iv)
      next
        case vt: True
        let ?t1 = "assign observe position v t"
        let ?fc = "forward_checking ?D ?U position v"
        obtain l where l: "?D position = Some l" using keys posU by auto
        have "set vals = set l"
          using sorted_values_total[OF l keys] sv by auto
        then have "v \<in> set l" using v by simp
        then have vV: "v \<in> V" by (rule candidates_inD[OF cand l])
        have Gt: "G (board t)" and It: "I (seen t)" and Ut: "unchanged_clues ?b (board t)"
          using t by (simp_all add: Inv_def)
        have free: "\<forall>q\<in>set all_positions. related position q \<longrightarrow> board t q \<noteq> v"
          using vt valid by simp
        have G1: "G (board ?t1)"
          unfolding board_assign by (rule admissible_write[OF adm Gt pos_in vV free])
        have I1: "I (seen ?t1)"
          unfolding seen_assign using G1 It unfolding board_assign by (rule observedD[OF obs])
        have U1: "unchanged_clues ?b (board ?t1)"
          unfolding board_assign using Ut pos0 by (rule unchanged_clues_assign)
        have Inv1: "Inv ?t1" using G1 I1 U1 by (simp add: Inv_def)
        have "\<forall>u\<in>set ?U. ?fc u \<noteq> None"
          using keys forward_checking_key by blast
        then obtain e where ae: "any_empty ?fc ?U = Inr e"
          using any_empty_Inr by blast
        show ?thesis
        proof (cases e)
          case True
          then show ?thesis using Inv1 by (simp add: iv vt ae)
        next
          case False
          have k1: "keyed ?fc (board ?t1)"
            unfolding keyed_def
          proof (intro ballI impI)
            fix p assume p: "p \<in> set all_positions" and z: "board ?t1 p = 0"
            show "?fc p \<noteq> None"
            proof (cases "p = position")
              case True
              have "?D position \<noteq> None" using l by simp
              then show ?thesis unfolding True by (rule forward_checking_key)
            next
              case False
              then have "board t p = 0" using z by (simp add: board_assign)
              with Ut have "?b p = 0" by (rule unchanged_clues_zero)
              then have "p \<in> set ?U" using p by (simp add: set_argwhere_zero be)
              then have "?D p \<noteq> None" using keys by blast
              then show ?thesis by (rule forward_checking_key)
            qed
          qed
          have eF: "e = False" using False by simp
          have c1: "candidates_in ?fc V"
            using cand by (rule candidates_in_forward_checking)
          have "\<exists>r s'. solve observe ?t1 (Some ?fc) = Inr (r, s') \<and> post G I (board ?t1) r s'"
            by (rule "1.IH"[OF refl _ refl refl us pos sv v iv refl _ refl refl ae eF obs])
               (use True vt k1 c1 G1 I1 in \<open>simp_all add: be\<close>)
          then obtain sb solved t2 where
            rec: "solve observe ?t1 (Some ?fc) = Inr ((sb, solved), t2)"
            and p2: "post G I (board ?t1) (sb, solved) t2"
            by auto
          have G2: "G (board t2)" and I2: "I (seen t2)"
            and U12: "unchanged_clues (board ?t1) (board t2)"
            using p2 by (simp_all add: post_def)
          have U2: "unchanged_clues ?b (board t2)"
            using U1 U12 by (rule unchanged_clues_trans)
          show ?thesis
          proof (cases solved)
            case True
            then have "post G I ?b (sb, True) t2"
              using p2 U2 by (simp add: post_def)
            then show ?thesis using True by (simp add: iv vt ae False rec)
          next
            case ns: False
            let ?t3 = "assign observe position 0 t2"
            have G3: "G (board ?t3)"
              unfolding board_assign by (rule admissible_clear[OF adm G2])
            have I3: "I (seen ?t3)"
              unfolding seen_assign using G3 I2 unfolding board_assign by (rule observedD[OF obs])
            have "unchanged_clues ?b (board ?t3)"
              unfolding board_assign using U2 pos0 by (rule unchanged_clues_assign)
            then have "Inv ?t3" using G3 I3 by (simp add: Inv_def)
            then show ?thesis using ns by (simp add: iv vt ae False rec)
          qed
        qed
      qed
    qed
    have outer_step:
      "case ?outer position t of Inl e \<Rightarrow> False
       | Inr (Some r, t') \<Rightarrow> post G I ?b r t'
       | Inr (None, t') \<Rightarrow> Inv t'"
      if pos: "position \<in> set us" and t: "Inv t" for position t
    proof -
      have posU: "position \<in> set ?U" using pos set_us by simp
      obtain l where l: "?D position = Some l" using keys posU by auto
      obtain vals where sv: "sorted_values ?D ?U position = Inr vals"
        using sorted_values_total[OF l keys] by blast
      have loop: "case for_loop vals (?inner position) t of Inl e \<Rightarrow> False
        | Inr (Some r, t') \<Rightarrow> post G I ?b r t'
        | Inr (None, t') \<Rightarrow> Inv t'"
        using t by (rule for_loop_rule) (rule inner_step[OF pos sv])
      have fin: "post G I ?b (None, False) t'" if "Inv t'" for t'
        using that by (simp add: post_def Inv_def)
      show ?thesis
        using loop fin unfolding sv
        by (auto split: sum.splits option.splits prod.splits)
    qed
    have loop: "case for_loop us ?outer ?s of Inl e \<Rightarrow> False
        | Inr (Some r, t') \<Rightarrow> post G I ?b r t'
        | Inr (None, t') \<Rightarrow> Inv t'"
      using Inv0 by (rule for_loop_rule) (rule outer_step)
    have fin: "post G I ?b (None, False) t'" if "Inv t'" for t'
      using that by (simp add: post_def Inv_def)
    show ?thesis
      unfolding eq using loop fin
      by (auto split: sum.splits option.splits prod.splits)
  qed
qed

lemma unit_cells_facts:
  "\<forall>u\<in>set unit_cells. length u = 9 \<and> distinct u \<and>
     (\<forall>p\<in>set u. p \<in> set all_positions \<and> (\<forall>q\<in>set u. related p q))"
  by code_simp

lemma contains_zero_iff: "contains_zero b \<longleftrightarrow> (\<exists>p\<in>set all_positions. b p = 0)"
  by (simp add: contains_zero_def list_ex_iff)

lemma solved_grid_complete:
  assumes cf: "conflict_free b" and wf: "well_formed b" and nz: "\<not> contains_zero b"
  shows "solved_grid b"
  unfolding solved_grid_def
proof (intro ballI)
  fix u d assume u: "u \<in> set unit_cells" and d: "d \<in> set [1..9]"
  have len: "length u = 9" and du: "distinct u"
    and sub: "\<And>p. p \<in> set u \<Longrightarrow> p \<in> set all_positions"
    and rel: "\<And>p q. p \<in> set u \<Longrightarrow> q \<in> set u \<Longrightarrow> related p q"
    using unit_cells_facts u by blast+
  have nonzero: "b p \<noteq> 0" if "p \<in> set u" for p
    using nz sub[OF that] by (auto simp: contains_zero_iff)
  have "inj_on b (set u)"
  proof (rule inj_onI)
    fix p q assume p: "p \<in> set u" and q: "q \<in> set u" and e: "b p = b q"
    show "p = q"
    proof (rule ccontr)
      assume "p \<noteq> q"
      then have "b p \<noteq> b q"
        using cf sub[OF p] sub[OF q] rel[OF p q] nonzero[OF p]
        unfolding conflict_free_def by blast
      then show False using e by simp
    qed
  qed
  then have dm: "distinct (map b u)" using du by (simp add: distinct_map)
  have "set (map b u) \<subseteq> {1..9}"
  proof
    fix x assume "x \<in> set (map b u)"
    then obtain p where p: "p \<in> set u" and x: "x = b p" by auto
    have "0 \<le> b p \<and> b p \<le> 9" using wf sub[OF p] unfolding well_formed_def by blast
    then show "x \<in> {1..9}" using nonzero[OF p] x by simp
  qed
  moreover have "card (set (map b u)) = length (map b u)"
    using dm by (rule distinct_card)
  then have "card (set (map b u)) = card {1..9::int}"
    using len by simp
  ultimately have "set (map b u) = {1..9}"
    by (intro card_subset_eq) simp_all
  then have "d \<in> set (map b u)" using d by simp
  then show "count_list (map b u) d = 1" using dm by (rule count_list_distinct[rotated])
qed

lemma well_formed_assign:
  "well_formed b \<Longrightarrow> 0 \<le> v \<Longrightarrow> v \<le> 9 \<Longrightarrow> well_formed (b(p := v))"
  by (simp add: well_formed_def)

lemma admissible_trivial: "admissible (\<lambda>_. True) V"
  by (simp add: admissible_def)

lemma admissible_conflict_free: "admissible conflict_free V"
  unfolding admissible_def using conflict_free_assign conflict_free_clear by blast

lemma admissible_sudoku: "admissible (\<lambda>b. conflict_free b \<and> well_formed b) {1..9}"
  unfolding admissible_def
proof (intro conjI allI impI)
  fix b :: board and p v
  assume h: "(conflict_free b \<and> well_formed b) \<and> p \<in> set all_positions \<and> v \<in> {1..9} \<and>
    (\<forall>q\<in>set all_positions. related p q \<longrightarrow> b q \<noteq> v)"
  then show "conflict_free (b(p := v))" using conflict_free_assign by blast
  from h show "well_formed (b(p := v))" by (intro well_formed_assign) auto
next
  fix b :: board and p
  assume "conflict_free b \<and> well_formed b"
  then show "conflict_free (b(p := 0))" "well_formed (b(p := 0))"
    by (simp_all add: conflict_free_clear well_formed_assign)
qed

lemma unchanged_cluesD: "unchanged_clues b c \<Longrightarrow> b p \<noteq> 0 \<Longrightarrow> c p = b p"
  unfolding unchanged_clues_def by blast

lemma solve_top:
  assumes "admissible G {1..9}" and "observed G I observe" and "G (board s0)" and "I (seen s0)"
  shows "\<exists>r s'. solve observe s0 None = Inr (r, s') \<and> post G I (board s0) r s'"
  using assms(1,2) _ _ assms(3,4)
  by (rule solve_post) (simp_all add: keyed_get_domains candidates_in_get_domains)

section \<open>Evaluating the search on concrete boards\<close>

lemma outcome_solved:
  "outcome res = Inr ((Some rows, True), fin) \<Longrightarrow> \<exists>b' s'. res = Inr ((Some b', True), s')"
  by (auto simp: outcome_def split: sum.splits prod.splits option.splits)

lemma outcome_failed:
  "outcome res = Inr ((None, False), fin) \<Longrightarrow>
   \<exists>s'. res = Inr ((None, False), s') \<and> rows_of (board s') = fin"
  by (auto simp: outcome_def split: sum.splits prod.splits option.splits)

lemma one_cleared_ok: "conflict_free (board_of one_cleared) \<and> well_formed (board_of one_cleared)"
  by code_simp

lemma one_cleared_outcome:
  "outcome (solve no_log \<lparr>board = board_of one_cleared, seen = ()\<rparr> None) =
     Inr ((Some pre_solved, True), pre_solved)"
  by code_simp

lemma one_cleared_solved:
  "\<exists>b' s'. solve no_log \<lparr>board = board_of one_cleared, seen = ()\<rparr> None = Inr ((Some b', True), s')"
  using one_cleared_outcome by (rule outcome_solved)

lemma cleared_row_solvable:
  "conflict_free (board_of cleared_row) \<and> well_formed (board_of cleared_row)
   \<and> completes (board_of cleared_row) (board_of pre_solved)"
  by code_simp

lemma cleared_row_outcome:
  "outcome (solve no_log \<lparr>board = board_of cleared_row, seen = ()\<rparr> None) =
     Inr ((None, False), pre_solved[0 := [0, 0, 0, 0, 0, 0, 0, 0, 2]])"
  by code_simp

lemma dead_end_ok: "conflict_free (board_of dead_end) \<and> well_formed (board_of dead_end)"
  by code_simp

lemma dead_end_no_completion: "\<not> (\<exists>c. completes (board_of dead_end) c)"
proof
  assume "\<exists>c. completes (board_of dead_end) c"
  then obtain c where sol: "solved_grid c"
    and clue: "\<And>p. p \<in> set all_positions \<Longrightarrow> board_of dead_end p \<noteq> 0 \<Longrightarrow> c p = board_of dead_end p"
    unfolding completes_def by blast
  have row: "[(0, 0), (0, 1), (0, 2), (0, 3), (0, 4), (0, 5), (0, 6), (0, 7), (0, 8)] \<in> set unit_cells"
    by code_simp
  have col: "[(0, 8), (1, 8), (2, 8), (3, 8), (4, 8), (5, 8), (6, 8), (7, 8), (8, 8)] \<in> set unit_cells"
    by code_simp
  have nine: "(9::int) \<in> set [1..9]" by code_simp
  have given: "list_all (\<lambda>p. p \<in> set all_positions \<and> board_of dead_end p \<noteq> 0)
      [(0, 0), (0, 1), (0, 2), (0, 3), (0, 4), (0, 5), (0, 6), (0, 7), (1, 8)]"
    by code_simp
  have vals: "map (board_of dead_end) [(0, 0), (0, 1), (0, 2), (0, 3), (0, 4), (0, 5), (0, 6), (0, 7), (1, 8)]
      = [1, 2, 3, 4, 5, 6, 7, 8, 9]"
    by code_simp
  have c0: "c (0, 0) = 1" "c (0, 1) = 2" "c (0, 2) = 3" "c (0, 3) = 4" "c (0, 4) = 5"
    "c (0, 5) = 6" "c (0, 6) = 7" "c (0, 7) = 8" "c (1, 8) = 9"
    using given vals clue by simp_all
  have "count_list (map c [(0, 0), (0, 1), (0, 2), (0, 3), (0, 4), (0, 5), (0, 6), (0, 7), (0, 8)]) 9 = 1"
    using sol row nine unfolding solved_grid_def by blast
  then have "c (0, 8) = 9" using c0 by (simp split: if_splits)
  moreover have "count_list (map c [(0, 8), (1, 8), (2, 8), (3, 8), (4, 8), (5, 8), (6, 8), (7, 8), (8, 8)]) 9 = 1"
    using sol col nine unfolding solved_grid_def by blast
  ultimately show False using c0 by (simp split: if_splits)
qed

section \<open>The clues survive a successful search\<close>

text \<open>
  Claim C10. For every input board, whatever the observer and its log: if the top-level
  call \<^verbatim>\<open>solve(board)\<close> returns a board with the flag \<open>True\<close>, the returned board agrees with
  the input on every cell that was non-zero in the input.
\<close>

theorem solve_preserves_clues:
  assumes "solve observe s0 None = Inr ((Some b', True), s')" and "board s0 p \<noteq> 0"
  shows "b' p = board s0 p"
proof -
  have "observed (\<lambda>_. True) (\<lambda>_. True) observe" by (simp add: observed_def)
  with admissible_trivial[of "{1..9}"]
  have "\<exists>r s'. solve observe s0 None = Inr (r, s') \<and> post (\<lambda>_. True) (\<lambda>_. True) (board s0) r s'"
    by (rule solve_top) simp_all
  then have "post (\<lambda>_. True) (\<lambda>_. True) (board s0) (Some b', True) s'"
    using assms(1) by auto
  then have "b' = board s'" and "unchanged_clues (board s0) (board s')"
    by (simp_all add: post_def)
  then show ?thesis using assms(2) unchanged_cluesD by blast
qed

theorem solve_preserves_clues_witness:
  "\<exists>b' s'. solve no_log \<lparr>board = board_of one_cleared, seen = ()\<rparr> None = Inr ((Some b', True), s')
     \<and> board_of one_cleared (0, 1) = 3 \<and> b' (0, 1) = 3"
proof -
  obtain b' s' where r: "solve no_log \<lparr>board = board_of one_cleared, seen = ()\<rparr> None = Inr ((Some b', True), s')"
    using one_cleared_solved by blast
  have v: "board_of one_cleared (0, 1) = 3" by code_simp
  then have "board \<lparr>board = board_of one_cleared, seen = ()\<rparr> (0, 1) \<noteq> 0" by simp
  from solve_preserves_clues[OF r this] have "b' (0, 1) = 3" using v by simp
  then show ?thesis using r v by blast
qed

section \<open>A successful search returns a solved board\<close>

text \<open>
  Claim C2, amended. For every well-formed input board (digits 0 to 9) whose non-zero
  cells are conflict-free: if the top-level call returns a board with the flag \<open>True\<close>,
  then every row, every column and every block of the returned board holds each digit
  from 1 to 9 exactly once.
\<close>

theorem solve_result_valid:
  assumes "well_formed (board s0)" and "conflict_free (board s0)"
    and "solve observe s0 None = Inr ((Some b', True), s')"
  shows "solved_grid b'"
proof -
  let ?G = "\<lambda>b. conflict_free b \<and> well_formed b"
  have "observed ?G (\<lambda>_. True) observe" by (simp add: observed_def)
  with admissible_sudoku
  have "\<exists>r s'. solve observe s0 None = Inr (r, s') \<and> post ?G (\<lambda>_. True) (board s0) r s'"
    by (rule solve_top) (simp_all add: assms)
  then have "post ?G (\<lambda>_. True) (board s0) (Some b', True) s'"
    using assms(3) by auto
  then have "b' = board s'" "conflict_free (board s')" "well_formed (board s')"
    "\<not> contains_zero (board s')"
    by (simp_all add: post_def)
  then show ?thesis by (simp add: solved_grid_complete)
qed

theorem solve_result_valid_witness:
  "well_formed (board_of one_cleared) \<and> conflict_free (board_of one_cleared)
   \<and> (\<exists>b' s'. solve no_log \<lparr>board = board_of one_cleared, seen = ()\<rparr> None = Inr ((Some b', True), s')
        \<and> solved_grid b')"
proof -
  obtain b' s' where r: "solve no_log \<lparr>board = board_of one_cleared, seen = ()\<rparr> None = Inr ((Some b', True), s')"
    using one_cleared_solved by blast
  have "solved_grid b'"
    using one_cleared_ok by (intro solve_result_valid[OF _ _ r]) simp_all
  then show ?thesis using r one_cleared_ok by blast
qed

text \<open>
  Claim C2 as stated, for every input board, fails on a full board that is not a
  solution: \<^verbatim>\<open>solve\<close> tests only \<^verbatim>\<open>0 in board\<close> and hands the board back with \<open>True\<close>. The
  board of ones is returned as solved.
\<close>

theorem solve_full_board_counterexample:
  "(\<exists>s'. solve no_log \<lparr>board = all_ones, seen = ()\<rparr> None = Inr ((Some all_ones, True), s'))
   \<and> \<not> solved_grid all_ones"
proof -
  have "\<not> contains_zero all_ones" by code_simp
  then have "solve no_log \<lparr>board = all_ones, seen = ()\<rparr> None =
      Inr ((Some all_ones, True), enter no_log \<lparr>board = all_ones, seen = ()\<rparr>)"
    by (subst solve.simps) (simp add: Let_def enter_def)
  moreover have "\<not> solved_grid all_ones" by code_simp
  ultimately show ?thesis by blast
qed

section \<open>An unsolvable board is reported as a result\<close>

text \<open>
  Claim C8. For every well-formed board whose non-zero cells are conflict-free and that
  has no completion, the top-level call returns normally, with no error, and its result is
  the pair \<open>(None, False)\<close>.
\<close>

theorem solve_unsolvable:
  assumes "well_formed (board s0)" and "conflict_free (board s0)"
    and "\<not> (\<exists>c. completes (board s0) c)"
  shows "\<exists>s'. solve observe s0 None = Inr ((None, False), s')"
proof -
  let ?G = "\<lambda>b. conflict_free b \<and> well_formed b"
  have "observed ?G (\<lambda>_. True) observe" by (simp add: observed_def)
  with admissible_sudoku
  have "\<exists>r s'. solve observe s0 None = Inr (r, s') \<and> post ?G (\<lambda>_. True) (board s0) r s'"
    by (rule solve_top) (simp_all add: assms)
  then obtain r s' where r: "solve observe s0 None = Inr (r, s')"
    and p: "post ?G (\<lambda>_. True) (board s0) r s'" by blast
  have "\<not> snd r"
  proof
    assume "snd r"
    then have "conflict_free (board s')" "well_formed (board s')" "\<not> contains_zero (board s')"
      "unchanged_clues (board s0) (board s')"
      using p by (simp_all add: post_def)
    then have "completes (board s0) (board s')"
      unfolding completes_def using solved_grid_complete unchanged_cluesD by blast
    then show False using assms(3) by blast
  qed
  then have "r = (None, False)" using p by (cases r) (simp add: post_def)
  then show ?thesis using r by blast
qed

theorem solve_unsolvable_witness:
  "well_formed (board_of dead_end) \<and> conflict_free (board_of dead_end)
   \<and> \<not> (\<exists>c. completes (board_of dead_end) c)
   \<and> (\<exists>s'. solve no_log \<lparr>board = board_of dead_end, seen = ()\<rparr> None = Inr ((None, False), s'))"
proof -
  have "\<exists>s'. solve no_log \<lparr>board = board_of dead_end, seen = ()\<rparr> None = Inr ((None, False), s')"
    using dead_end_ok dead_end_no_completion by (intro solve_unsolvable) simp_all
  then show ?thesis using dead_end_ok dead_end_no_completion by blast
qed

section \<open>Every board of the search is conflict-free\<close>

text \<open>
  Claim C7. With the observer that keeps every board (the board at entry to each
  invocation of \<^verbatim>\<open>solve\<close> and the board after each write), a top-level call on a board
  whose non-zero cells are conflict-free returns normally, and every board in its log is
  conflict-free.
\<close>

theorem search_boards_conflict_free:
  assumes "conflict_free b"
  shows "\<exists>r s'. solve Cons \<lparr>board = b, seen = []\<rparr> None = Inr (r, s')
           \<and> (\<forall>b'\<in>set (seen s'). conflict_free b')"
proof -
  let ?I = "\<lambda>l. \<forall>b'\<in>set l. conflict_free b'"
  let ?s0 = "\<lparr>board = b, seen = [] :: board list\<rparr>"
  have "observed conflict_free ?I Cons" by (simp add: observed_def)
  with admissible_conflict_free[of "{1..9}"]
  have "\<exists>r s'. solve Cons ?s0 None = Inr (r, s') \<and> post conflict_free ?I (board ?s0) r s'"
    by (rule solve_top) (simp_all add: assms)
  then show ?thesis by (auto simp: post_def)
qed

theorem search_boards_conflict_free_witness:
  "conflict_free (board_of one_cleared)
   \<and> (\<exists>r s'. solve Cons \<lparr>board = board_of one_cleared, seen = []\<rparr> None = Inr (r, s')
        \<and> (\<forall>b'\<in>set (seen s'). conflict_free b'))"
  using search_boards_conflict_free [of "board_of one_cleared"] one_cleared_ok by blast

text \<open>The log of that call: the input, the board after the one write, and the same board
  at entry to the recursive invocation.\<close>

lemma one_cleared_log:
  "(case solve Cons \<lparr>board = board_of one_cleared, seen = []\<rparr> None of
      Inl e \<Rightarrow> [] | Inr (r, s) \<Rightarrow> map rows_of (seen s)) =
     [pre_solved, pre_solved, one_cleared]"
  by code_simp

section \<open>A solvable board on which the search fails\<close>

text \<open>
  Claim C3 at the solved grid with its first row cleared. The board is conflict-free and
  \<^verbatim>\<open>pre_solved\<close> completes it (\<open>cleared_row_solvable\<close>), yet the top-level call returns
  \<open>(None, False)\<close>: the last cell of the row has the single candidate 2 left,
  \<^verbatim>\<open>forward_checking\<close> removes 2 from that cell's own domain, and the empty domain is
  taken for a dead end.
\<close>

theorem solve_fails_on_cleared_row:
  "\<exists>s'. solve no_log \<lparr>board = board_of cleared_row, seen = ()\<rparr> None = Inr ((None, False), s')"
  using outcome_failed[OF cleared_row_outcome] by blast

section \<open>A failed search that leaves a value on the board\<close>

text \<open>
  Claim C1 at the same board. The call returns \<open>(None, False)\<close>, and the cell \<open>(0, 8)\<close>,
  empty in the input, holds 2 afterwards: the \<^verbatim>\<open>continue\<close> taken after forward checking
  found an empty domain skips the \<^verbatim>\<open>board[position] = 0\<close> that follows a failed recursive
  call.
\<close>

theorem solve_leaves_stray_value:
  "\<exists>s'. solve no_log \<lparr>board = board_of cleared_row, seen = ()\<rparr> None = Inr ((None, False), s')
     \<and> board s' (0, 8) = 2 \<and> board_of cleared_row (0, 8) = 0"
proof -
  obtain s' where r: "solve no_log \<lparr>board = board_of cleared_row, seen = ()\<rparr> None = Inr ((None, False), s')"
    and f: "rows_of (board s') = pre_solved[0 := [0, 0, 0, 0, 0, 0, 0, 0, 2]]"
    using outcome_failed[OF cleared_row_outcome] by blast
  have "rows_of (board s') ! 0 ! 8 = board s' (0, 8)"
    by (simp add: rows_of_def shape0_def shape1_def)
  moreover have "pre_solved[0 := [0, 0, 0, 0, 0, 0, 0, 0, 2]] ! 0 ! 8 = (2::int)"
    by (simp add: pre_solved_def)
  ultimately have "board s' (0, 8) = 2" using f by simp
  moreover have "board_of cleared_row (0, 8) = 0" by code_simp
  ultimately show ?thesis using r by blast
qed

end
